theory Spec2Isabelle
  imports Main "HOL-Library.Char_ord" "HOL-Library.List_Lexorder"
begin

section \<open>Python string primitives used by flexpath.py\<close>

text \<open>
  A Python \<open>str\<close> is modelled as a \<open>string\<close>. The functions below are the string
  methods the source calls, restricted to the one-character separators it passes
  (\<open>"/"\<close> and \<open>"."\<close>).
\<close>

text \<open>
  \<open>s.split(c)\<close> for a one-character separator: never empty, \<open>"".split("/") == [""]\<close>.
  The recursive call never returns the empty list, so the first branch of the inner
  case distinction is never taken.
\<close>

fun split_sep :: "char \<Rightarrow> string \<Rightarrow> string list" where
  "split_sep c [] = [[]]"
| "split_sep c (x # xs) =
     (if x = c then [] # split_sep c xs
      else (case split_sep c xs of
              [] \<Rightarrow> [[x]]
            | y # ys \<Rightarrow> (x # y) # ys))"

text \<open>\<open>sep.join(comps)\<close>.\<close>

fun join_sep :: "string \<Rightarrow> string list \<Rightarrow> string" where
  "join_sep sep [] = []"
| "join_sep sep [x] = x"
| "join_sep sep (x # y # ys) = x @ sep @ join_sep sep (y # ys)"

definition startswith :: "string \<Rightarrow> string \<Rightarrow> bool" where
  "startswith s p = (take (length p) s = p)"

definition endswith :: "string \<Rightarrow> string \<Rightarrow> bool" where
  "endswith s p = (drop (length s - length p) s = p \<and> length p \<le> length s)"

text \<open>\<open>s.rstrip("/")\<close>.\<close>

definition rstrip_sep :: "string \<Rightarrow> string" where
  "rstrip_sep s = rev (dropWhile (\<lambda>c. c = CHR ''/'') (rev s))"

text \<open>\<open>s.rfind(c)\<close>: the index of the last occurrence of \<open>c\<close>, or \<open>-1\<close>.\<close>

fun rfind :: "string \<Rightarrow> char \<Rightarrow> int" where
  "rfind [] c = - 1"
| "rfind (x # xs) c =
     (let r = rfind xs c in if r \<ge> 0 then r + 1 else if x = c then 0 else - 1)"

text \<open>\<open>s.count(c)\<close>.\<close>

definition count_char :: "string \<Rightarrow> char \<Rightarrow> nat" where
  "count_char s c = length (filter (\<lambda>x. x = c) s)"

section \<open>Errors\<close>

datatype error =
    Invalid_name
  | Root_or_empty_path
  | Invalid_suffix
  | Path_has_no_name
  | Different_anchors
  | Not_in_subpath
  | No_path_specified
  | Commonpath_error
  | Index_error

section \<open>The functions of \<open>os.path\<close> (posixpath) that the source calls\<close>

text \<open>
  \<open>posixpath.normpath\<close>, after the Python implementation in the standard library
  (\<open>norm_step\<close> is the body of its loop over the components). One or two leading
  slashes are kept as they are, three or more become one; an empty result is \<open>"."\<close>.
\<close>

definition initial_slashes :: "string \<Rightarrow> nat" where
  "initial_slashes path =
     (if \<not> startswith path ''/'' then 0
      else if startswith path ''//'' \<and> \<not> startswith path ''///'' then 2
      else 1)"

definition norm_step :: "nat \<Rightarrow> string list \<Rightarrow> string \<Rightarrow> string list" where
  "norm_step init new_comps c =
     (if c = [] \<or> c = ''.'' then new_comps
      else if c \<noteq> ''..'' \<or> (init = 0 \<and> new_comps = [])
              \<or> (new_comps \<noteq> [] \<and> last new_comps = ''..'')
           then new_comps @ [c]
      else if new_comps \<noteq> [] then butlast new_comps
      else new_comps)"

definition normpath :: "string \<Rightarrow> string" where
  "normpath path =
     (if path = [] then ''.''
      else
        let init = initial_slashes path;
            comps = foldl (norm_step init) [] (split_sep CHR ''/'' path);
            p = replicate init CHR ''/'' @ join_sep ''/'' comps
        in if p = [] then ''.'' else p)"

text \<open>\<open>posixpath.isabs\<close>.\<close>

definition isabs :: "string \<Rightarrow> bool" where
  "isabs s = startswith s ''/''"

text \<open>\<open>posixpath.join(a, *p)\<close>: an absolute fragment resets the accumulated path.\<close>

definition join_step :: "string \<Rightarrow> string \<Rightarrow> string" where
  "join_step path b =
     (if startswith b ''/'' then b
      else if path = [] \<or> endswith path ''/'' then path @ b
      else path @ ''/'' @ b)"

definition posix_join :: "string \<Rightarrow> string list \<Rightarrow> string" where
  "posix_join a p = foldl join_step a p"

text \<open>\<open>posixpath.dirname\<close>.\<close>

definition dirname :: "string \<Rightarrow> string" where
  "dirname p =
     (let i = rfind p CHR ''/'' + 1;
          head = take (nat i) p
      in if head \<noteq> [] \<and> head \<noteq> replicate (length head) CHR ''/''
         then rstrip_sep head else head)"

section \<open>FlexPath\<close>

text \<open>
  \<open>FlexPath\<close> subclasses \<open>str\<close>: a value is its text. \<open>FlexPath_new\<close> is
  \<open>FlexPath.__new__\<close>; every \<open>ValueError\<close> the class raises is a constructor of
  \<open>error\<close>, named after its message. \<open>No_path_specified\<close> and \<open>Commonpath_error\<close>
  are the \<open>ValueError\<close>s of \<open>posixpath.relpath\<close> and \<open>posixpath.commonpath\<close>,
  \<open>Index_error\<close> is an out-of-range list index.
\<close>

type_synonym FlexPath = string

definition FlexPath_new :: "string \<Rightarrow> FlexPath" where
  "FlexPath_new s = (if s = [] then [] else normpath s)"

definition wrap :: "string \<Rightarrow> FlexPath" where
  "wrap v = FlexPath_new v"

definition is_abs :: "FlexPath \<Rightarrow> bool" where
  "is_abs self = startswith self ''/''"

definition split_parts :: "FlexPath \<Rightarrow> string list" where
  "split_parts s =
     (if s = [] then []
      else if s = ''/'' then [''/'']
      else
        let comps = filter (\<lambda>c. c \<noteq> []) (split_sep CHR ''/'' s)
        in if startswith s ''/'' then ''/'' # comps else comps)"

definition last_component :: "FlexPath \<Rightarrow> string" where
  "last_component self =
     (if self = ''/'' then ''/''
      else
        let s = rstrip_sep self
        in if s = [] then []
           else
             let idx = rfind s CHR ''/''
             in if idx \<ge> 0 then drop (nat (idx + 1)) s else s)"

definition parts :: "FlexPath \<Rightarrow> string list" where
  "parts self = split_parts self"

definition name :: "FlexPath \<Rightarrow> string" where
  "name self = last_component self"

definition suffix :: "FlexPath \<Rightarrow> string" where
  "suffix self =
     (let n = name self
      in if n = [] \<or> n = ''/'' then []
         else
           let i = rfind n CHR ''.''
           in if i \<le> 0 then [] else drop (nat i) n)"

definition suffixes :: "FlexPath \<Rightarrow> string list" where
  "suffixes self =
     (let n = name self
      in if n = [] \<or> (startswith n ''.'' \<and> count_char n CHR ''.'' = 1) then []
         else
           let ps = split_sep CHR ''.'' n
           in if length ps \<le> 1 then []
              else map (\<lambda>p. ''.'' @ p) (tl ps))"

definition stem :: "FlexPath \<Rightarrow> string" where
  "stem self =
     (let n = name self
      in if n = [] \<or> n = ''/'' then n
         else
           let i = rfind n CHR ''.''
           in if i \<le> 0 then n else take (nat i) n)"

definition parent :: "FlexPath \<Rightarrow> FlexPath" where
  "parent self =
     (if self = ''/'' then self
      else
        let s = rstrip_sep self
        in if s = [] then wrap ''.''
           else
             let d = dirname s
             in wrap (if d \<noteq> [] then d else ''.''))"

definition with_name :: "FlexPath \<Rightarrow> string \<Rightarrow> error + FlexPath" where
  "with_name self nm =
     (if CHR ''/'' \<in> set nm \<or> nm = [] then Inl Invalid_name
      else if self = [] \<or> self = ''/'' then Inl Root_or_empty_path
      else
        let p = parent self
        in if p = ''.'' then Inr (wrap nm)
           else Inr (wrap (p @ ''/'' @ nm)))"

definition with_suffix :: "FlexPath \<Rightarrow> string \<Rightarrow> error + FlexPath" where
  "with_suffix self suf =
     (if suf \<noteq> [] \<and> \<not> startswith suf ''.'' then Inl Invalid_suffix
      else
        let n = name self
        in if n = [] \<or> n = ''/'' then Inl Path_has_no_name
           else
             let base = (if length n \<noteq> length self
                         then take (length self - length n) self else []);
                 i = rfind n CHR ''.'';
                 new_name = (if i \<le> 0 then n @ suf else take (nat i) n @ suf)
             in Inr (wrap (base @ new_name)))"

definition joinpath :: "FlexPath \<Rightarrow> string list \<Rightarrow> FlexPath" where
  "joinpath self others =
     (if others = [] then self
      else wrap (posix_join self others))"

definition truediv :: "FlexPath \<Rightarrow> string \<Rightarrow> FlexPath" where
  "truediv self other = joinpath self [other]"

definition rtruediv :: "FlexPath \<Rightarrow> string \<Rightarrow> FlexPath" where
  "rtruediv self other = wrap (posix_join other [self])"

section \<open>Relative paths\<close>

text \<open>
  The scan shared by \<open>genericpath.commonprefix\<close> and \<open>posixpath.commonpath\<close>:
  \<open>for i, c in enumerate(s1): if c != s2[i]: return s1[:i]\<close>, and \<open>s1\<close> when the loop
  ends. Reading \<open>s2[i]\<close> beyond the end of \<open>s2\<close> raises \<open>IndexError\<close>.
\<close>

fun common_scan :: "'a list \<Rightarrow> 'a list \<Rightarrow> error + 'a list" where
  "common_scan [] s2 = Inr []"
| "common_scan (c # s1) [] = Inl Index_error"
| "common_scan (c # s1) (d # s2) =
     (if c \<noteq> d then Inr []
      else (case common_scan s1 s2 of
              Inl e \<Rightarrow> Inl e
            | Inr r \<Rightarrow> Inr (c # r)))"

text \<open>\<open>min(m)\<close> and \<open>max(m)\<close> of a non-empty list, in Python's lexicographic order.\<close>

definition py_min :: "'a::linorder list \<Rightarrow> 'a" where
  "py_min m = foldl min (hd m) (tl m)"

definition py_max :: "'a::linorder list \<Rightarrow> 'a" where
  "py_max m = foldl max (hd m) (tl m)"

text \<open>\<open>genericpath.commonprefix\<close> on a list of component lists.\<close>

definition commonprefix :: "string list list \<Rightarrow> error + string list" where
  "commonprefix m =
     (if m = [] then Inr []
      else common_scan (py_min m) (py_max m))"

text \<open>\<open>posixpath.commonpath\<close>.\<close>

definition commonpath :: "string list \<Rightarrow> error + string" where
  "commonpath paths =
     (if paths = [] then Inl Commonpath_error
      else
        let split_paths = map (split_sep CHR ''/'') paths
        in (case remdups (map (\<lambda>p. take 1 p = ''/'') paths) of
              [rooted] \<Rightarrow>
                (let split_paths' =
                       map (filter (\<lambda>c. c \<noteq> [] \<and> c \<noteq> ''.'')) split_paths;
                     s1 = py_min split_paths';
                     s2 = py_max split_paths'
                 in (case common_scan s1 s2 of
                       Inl e \<Rightarrow> Inl e
                     | Inr common \<Rightarrow>
                         Inr ((if rooted then ''/'' else []) @ join_sep ''/'' common)))
            | _ \<Rightarrow> Inl Commonpath_error))"

text \<open>
  \<open>posixpath.abspath\<close> and \<open>posixpath.relpath\<close>. They read the current working
  directory (\<open>os.getcwd()\<close>), which is the parameter \<open>cwd\<close> here.
\<close>

definition abspath :: "string \<Rightarrow> string \<Rightarrow> string" where
  "abspath cwd path =
     normpath (if \<not> isabs path then posix_join cwd [path] else path)"

definition relpath :: "string \<Rightarrow> string \<Rightarrow> string \<Rightarrow> error + string" where
  "relpath cwd path start =
     (if path = [] then Inl No_path_specified
      else
        let start_list = filter (\<lambda>x. x \<noteq> []) (split_sep CHR ''/'' (abspath cwd start));
            path_list = filter (\<lambda>x. x \<noteq> []) (split_sep CHR ''/'' (abspath cwd path))
        in (case commonprefix [start_list, path_list] of
              Inl e \<Rightarrow> Inl e
            | Inr cp \<Rightarrow>
                (let i = length cp;
                     rel_list = replicate (length start_list - i) ''..'' @ drop i path_list
                 in if rel_list = [] then Inr ''.''
                    else Inr (posix_join (hd rel_list) (tl rel_list)))))"

text \<open>
  \<open>FlexPath.relative_to(*other)\<close>. The \<open>ValueError\<close> of \<open>commonpath\<close> is caught and
  raised again as "not in the subpath"; any other exception propagates.
\<close>

definition relative_to :: "string \<Rightarrow> FlexPath \<Rightarrow> string list \<Rightarrow> error + FlexPath" where
  "relative_to cwd self other =
     (let base = (case other of [] \<Rightarrow> [] | a # p \<Rightarrow> posix_join a p);
          sp = normpath self;
          bp = normpath base
      in if isabs sp \<noteq> isabs bp then Inl Different_anchors
         else (case commonpath [sp, bp] of
                 Inl Commonpath_error \<Rightarrow> Inl Not_in_subpath
               | Inl e \<Rightarrow> Inl e
               | Inr common \<Rightarrow>
                   if common \<noteq> bp then Inl Not_in_subpath
                   else (case relpath cwd sp bp of
                           Inl e \<Rightarrow> Inl e
                         | Inr rel \<Rightarrow> Inr (wrap (if rel = ''.'' then ''.'' else rel)))))"

section \<open>The specification's wording of normalization and join\<close>

text \<open>
  The normalization algorithm as the specification words it: split on \<open>/\<close>, drop empty
  and \<open>.\<close> segments, resolve \<open>..\<close> by popping the previous retained segment unless that
  segment is itself \<open>..\<close> (keep a leading \<open>..\<close> of a relative path, drop a \<open>..\<close> above the
  root), reassemble with \<open>/\<close>, prefixed by \<open>/\<close> if the input was absolute. The empty
  input is exempt. The stack of retained segments has its top first.
\<close>

fun spec_resolve :: "bool \<Rightarrow> string list \<Rightarrow> string list \<Rightarrow> string list" where
  "spec_resolve absolute stack [] = rev stack"
| "spec_resolve absolute stack (seg # segs) =
     (if seg = ''..'' then
        (case stack of
           [] \<Rightarrow>
             if absolute then spec_resolve absolute [] segs
             else spec_resolve absolute [''..''] segs
         | prev # below \<Rightarrow>
             if prev = ''..'' then spec_resolve absolute (seg # stack) segs
             else spec_resolve absolute below segs)
      else spec_resolve absolute (seg # stack) segs)"

definition spec_normalize :: "string \<Rightarrow> string" where
  "spec_normalize s =
     (if s = [] then []
      else
        let absolute = (take 1 s = ''/'');
            segs = filter (\<lambda>g. g \<noteq> [] \<and> g \<noteq> ''.'') (split_sep CHR ''/'' s)
        in (if absolute then ''/'' else []) @ join_sep ''/'' (spec_resolve absolute [] segs))"

text \<open>
  Join as the specification words it: the fragments from the last absolute one on (the
  base and all fragments when none is absolute) are concatenated, with one separator
  between two fragments unless the text so far is empty or already ends with one.
\<close>

definition concat_fragments :: "string \<Rightarrow> string list \<Rightarrow> string" where
  "concat_fragments a fs =
     foldl (\<lambda>path b. if path = [] \<or> endswith path ''/'' then path @ b
                      else path @ ''/'' @ b) a fs"

definition spec_join :: "string \<Rightarrow> string list \<Rightarrow> string" where
  "spec_join base fs =
     (case dropWhile (\<lambda>f. \<not> isabs f) (rev fs) of
        [] \<Rightarrow> concat_fragments base fs
      | f # before \<Rightarrow>
          concat_fragments f (rev (takeWhile (\<lambda>f. \<not> isabs f) (rev fs))))"

section \<open>Normal forms\<close>

text \<open>
  The two halves of \<open>normpath\<close> on a non-empty path: the component list its loop
  leaves, and the text assembled from the number of leading slashes and that list.
\<close>

definition norm_comps :: "string \<Rightarrow> string list" where
  "norm_comps s = foldl (norm_step (initial_slashes s)) [] (split_sep CHR ''/'' s)"

definition assemble :: "nat \<Rightarrow> string list \<Rightarrow> string" where
  "assemble init comps =
     (let p = replicate init CHR ''/'' @ join_sep ''/'' comps
      in if p = [] then ''.'' else p)"

text \<open>
  The invariant of the loop, on the component list with its last element first: no
  component is empty, \<open>.\<close> or contains a separator, and a \<open>..\<close> occurs only in a
  relative path, at the front or right after another \<open>..\<close>.
\<close>

fun comps_ok_rev :: "nat \<Rightarrow> string list \<Rightarrow> bool" where
  "comps_ok_rev init [] = True"
| "comps_ok_rev init (c # below) =
     (comps_ok_rev init below \<and> c \<noteq> [] \<and> c \<noteq> ''.'' \<and> CHR ''/'' \<notin> set c
      \<and> (c = ''..'' \<longrightarrow> init = 0 \<and> (below = [] \<or> hd below = ''..'')))"

definition comps_ok :: "nat \<Rightarrow> string list \<Rightarrow> bool" where
  "comps_ok init comps = comps_ok_rev init (rev comps)"
section \<open>String lemmas\<close>

lemma rfind_notin: "c \<notin> set s \<Longrightarrow> rfind s c = - 1"
  by (induction s) (auto simp: Let_def)

lemma rfind_in: "c \<in> set s \<Longrightarrow> 0 \<le> rfind s c"
  by (induction s) (auto simp: Let_def)

lemma rfind_bounds: "- 1 \<le> rfind s c \<and> rfind s c < int (length s)"
  by (induction s) (auto simp: Let_def)

lemma rfind_snoc: "rfind (s @ [c]) c = int (length s)"
  by (induction s) (auto simp: Let_def)

lemma rfind_decomp:
  "0 \<le> rfind s c \<Longrightarrow>
     s = take (nat (rfind s c)) s @ c # drop (Suc (nat (rfind s c))) s
     \<and> c \<notin> set (drop (Suc (nat (rfind s c))) s)"
proof (induction s)
  case Nil
  then show ?case by simp
next
  case (Cons x xs)
  show ?case
  proof (cases "0 \<le> rfind xs c")
    case True
    then have r: "rfind (x # xs) c = rfind xs c + 1" by (simp add: Let_def)
    have n: "nat (rfind xs c + 1) = Suc (nat (rfind xs c))" using True by simp
    show ?thesis using Cons.IH [OF True] unfolding r n by simp
  next
    case False
    then have "c \<notin> set xs" using rfind_in by blast
    moreover have "x = c" using Cons.prems False by (simp add: Let_def split: if_splits)
    moreover have "rfind (x # xs) c = 0" using False \<open>x = c\<close> by (simp add: Let_def)
    ultimately show ?thesis by simp
  qed
qed

lemma dotfile:
  assumes "name p = CHR ''.'' # rest" and "CHR ''.'' \<notin> set rest"
  shows "suffix p = [] \<and> suffixes p = [] \<and> stem p = name p"
proof -
  have r: "rfind (name p) CHR ''.'' = 0"
    using assms by (simp add: rfind_notin Let_def)
  have c: "count_char (name p) CHR ''.'' = 1"
    using assms by (auto simp: count_char_def filter_empty_conv)
  have s: "startswith (name p) ''.''" using assms by (simp add: startswith_def)
  show ?thesis using r c s by (simp add: suffix_def suffixes_def stem_def Let_def)
qed

lemma trailing_dot:
  assumes "name p = pre @ ''.''" and "pre \<noteq> []"
  shows "suffix p = ''.'' \<and> stem p = pre \<and> suffix p \<noteq> []"
proof -
  have r: "rfind (name p) CHR ''.'' = int (length pre)"
    using assms(1) rfind_snoc [of pre "CHR ''.''"] by simp
  have n: "name p \<noteq> [] \<and> name p \<noteq> ''/''" using assms by (cases pre) auto
  show ?thesis using r n assms by (simp add: suffix_def stem_def Let_def)
qed

lemma stem_suffix: "stem p @ suffix p = name p"
  by (simp add: stem_def suffix_def Let_def)

lemma rstrip_noslash: "CHR ''/'' \<notin> set s \<Longrightarrow> rstrip_sep s = s"
proof -
  assume a: "CHR ''/'' \<notin> set s"
  have "dropWhile (\<lambda>c. c = CHR ''/'') (rev s) = rev s"
  proof (cases "rev s")
    case Nil
    then show ?thesis by simp
  next
    case (Cons x xs)
    then have "x \<in> set s" by (metis list.set_intros(1) set_rev)
    then have "x \<noteq> CHR ''/''" using a by auto
    then show ?thesis using Cons by simp
  qed
  then show ?thesis by (simp add: rstrip_sep_def)
qed

lemma dirname_noslash: "CHR ''/'' \<notin> set s \<Longrightarrow> dirname s = []"
  by (simp add: dirname_def rfind_notin)

lemma wrap_dot: "wrap ''.'' = ''.''"
  by (simp add: wrap_def FlexPath_new_def normpath_def initial_slashes_def startswith_def norm_step_def)

lemma parent_nodir: "CHR ''/'' \<notin> set p \<Longrightarrow> parent p = ''.''"
  by (auto simp: parent_def Let_def rstrip_noslash dirname_noslash wrap_dot)

lemma fixed: "parent ''/'' = ''/'' \<and> name ''/'' = ''/'' \<and> parts [] = [] \<and> parts ''/'' = [''/'']"
  by (simp add: parent_def name_def last_component_def parts_def split_parts_def)

lemma split_sep_ne: "split_sep c s \<noteq> []"
  by (induction s) (auto split: list.splits)

lemma split_sep_hd: "hd (split_sep c s) = takeWhile (\<lambda>x. x \<noteq> c) s"
  by (induction s) (auto split: list.splits simp: split_sep_ne)

lemma split_sep_tl:
  "concat (map (\<lambda>p. c # p) (tl (split_sep c s))) = dropWhile (\<lambda>x. x \<noteq> c) s"
proof (induction s)
  case Nil
  then show ?case by simp
next
  case (Cons x xs)
  show ?case
  proof (cases "x = c")
    case True
    have "split_sep c xs = hd (split_sep c xs) # tl (split_sep c xs)"
      using split_sep_ne by simp
    then have "concat (map (\<lambda>p. c # p) (split_sep c xs)) =
               c # hd (split_sep c xs) @ concat (map (\<lambda>p. c # p) (tl (split_sep c xs)))"
      by (metis (no_types, lifting) append_Cons concat.simps(2) list.simps(9))
    then show ?thesis using True Cons.IH by (simp add: split_sep_hd)
  next
    case False
    then show ?thesis using Cons.IH by (auto split: list.splits simp: split_sep_ne)
  qed
qed

lemma split_sep_length: "length (split_sep c s) = Suc (count_char s c)"
  by (induction s) (auto split: list.splits simp: split_sep_ne count_char_def)

lemma split_sep_last:
  "last (split_sep c s) = (if c \<in> set s then drop (Suc (nat (rfind s c))) s else s)"
proof (induction s)
  case Nil
  then show ?case by simp
next
  case (Cons x xs)
  show ?case
  proof (cases "c \<in> set xs")
    case True
    then have r: "0 \<le> rfind xs c" by (rule rfind_in)
    then have "rfind (x # xs) c = rfind xs c + 1" by (simp add: Let_def)
    then have n: "nat (rfind (x # xs) c) = Suc (nat (rfind xs c))" using r by simp
    have t: "tl (split_sep c xs) \<noteq> []"
      using True split_sep_length [of c xs]
      by (cases "split_sep c xs") (auto simp: count_char_def filter_empty_conv)
    have "last (split_sep c (x # xs)) = last (split_sep c xs)"
      using t by (cases "split_sep c xs") (auto)
    then show ?thesis using Cons.IH True n by simp
  next
    case False
    then have r: "rfind xs c = - 1" by (simp add: rfind_notin)
    have l: "length (split_sep c xs) = 1"
      using False split_sep_length [of c xs] by (auto simp: count_char_def filter_empty_conv)
    then obtain y where y: "split_sep c xs = [y]"
      by (cases "split_sep c xs") auto
    then have yx: "y = xs" using Cons.IH False by simp
    show ?thesis using False r y yx by (auto simp: Let_def)
  qed
qed


lemma suffixes_empty_iff: "suffixes p = [] \<longleftrightarrow> suffix p = []"
proof (cases "name p = [] \<or> name p = ''/''")
  case True
  then show ?thesis by (auto simp: suffixes_def suffix_def Let_def startswith_def)
next
  case False
  let ?n = "name p"
  show ?thesis
  proof (cases "rfind ?n CHR ''.'' \<le> 0")
    case True
    have s: "suffix p = []" using True by (simp add: suffix_def Let_def)
    show ?thesis
    proof (cases "CHR ''.'' \<in> set ?n")
      case True
      then have "rfind ?n CHR ''.'' = 0" using rfind_in \<open>rfind ?n CHR ''.'' \<le> 0\<close> by fastforce
      then have d: "?n = [] @ CHR ''.'' # drop (Suc 0) ?n \<and> CHR ''.'' \<notin> set (drop (Suc 0) ?n)"
        using rfind_decomp [of ?n "CHR ''.''"] by simp
      then obtain rest where "?n = CHR ''.'' # rest" "CHR ''.'' \<notin> set rest"
        by (metis append_Nil)
      then show ?thesis using s dotfile by blast
    next
      case False
      then have "length (split_sep CHR ''.'' ?n) = 1"
        using split_sep_length [of "CHR ''.''" ?n] by (auto simp: count_char_def filter_empty_conv)
      then show ?thesis using s by (simp add: suffixes_def Let_def)
    qed
  next
    case False
    then have pos: "0 < rfind ?n CHR ''.''" by simp
    then have s: "suffix p \<noteq> []"
      using \<open>\<not> (name p = [] \<or> name p = ''/'')\<close> rfind_bounds [of ?n "CHR ''.''"]
      by (simp add: suffix_def Let_def)
    have d: "?n = take (nat (rfind ?n CHR ''.'')) ?n @ CHR ''.'' # drop (Suc (nat (rfind ?n CHR ''.''))) ?n
             \<and> CHR ''.'' \<notin> set (drop (Suc (nat (rfind ?n CHR ''.''))) ?n)"
      using rfind_decomp [of ?n "CHR ''.''"] pos by simp
    have "\<not> (startswith ?n ''.'' \<and> count_char ?n CHR ''.'' = 1)"
    proof
      assume a: "startswith ?n ''.'' \<and> count_char ?n CHR ''.'' = 1"
      then obtain rest where r: "?n = CHR ''.'' # rest"
        by (cases ?n) (auto simp: startswith_def)
      then have "CHR ''.'' \<notin> set rest" using a
        by (auto simp: count_char_def filter_empty_conv)
      then have "rfind ?n CHR ''.'' = 0" using r by (simp add: rfind_notin Let_def)
      then show False using pos by simp
    qed
    moreover have "CHR ''.'' \<in> set ?n" using d by (metis in_set_conv_decomp)
    then have "1 < length (split_sep CHR ''.'' ?n)"
      using split_sep_length [of "CHR ''.''" ?n]
      by (auto simp: count_char_def filter_empty_conv)
    ultimately have "suffixes p \<noteq> []"
      using \<open>\<not> (name p = [] \<or> name p = ''/'')\<close>
      by (cases "tl (split_sep CHR ''.'' ?n)"; cases "split_sep CHR ''.'' ?n")
         (auto simp: suffixes_def Let_def)
    then show ?thesis using s by simp
  qed
qed

lemma suffixes_nonempty:
  assumes "suffixes p \<noteq> []"
  shows "suffixes p = map (\<lambda>q. ''.'' @ q) (tl (split_sep CHR ''.'' (name p)))"
  using assms by (auto simp: suffixes_def Let_def split: if_splits)

lemma suffixes_concat:
  assumes "suffixes p \<noteq> []"
  shows "concat (suffixes p) = dropWhile (\<lambda>c. c \<noteq> CHR ''.'') (name p)"
  using split_sep_tl [of "CHR ''.''" "name p"] suffixes_nonempty [OF assms] by simp

lemma rfind_drop:
  "0 \<le> rfind s c \<Longrightarrow> drop (nat (rfind s c)) s = c # drop (Suc (nat (rfind s c))) s"
proof (induction s)
  case Nil
  then show ?case by simp
next
  case (Cons x xs)
  show ?case
  proof (cases "0 \<le> rfind xs c")
    case True
    then have r: "rfind (x # xs) c = rfind xs c + 1" by (simp add: Let_def)
    have n: "nat (rfind xs c + 1) = Suc (nat (rfind xs c))" using True by simp
    show ?thesis using Cons.IH [OF True] unfolding r n by simp
  next
    case False
    moreover have "x = c" using Cons.prems False by (simp add: Let_def split: if_splits)
    moreover have "rfind (x # xs) c = 0" using False \<open>x = c\<close> by (simp add: Let_def)
    ultimately show ?thesis by simp
  qed
qed

lemma suffixes_last:
  assumes "suffixes p \<noteq> []"
  shows "last (suffixes p) = suffix p"
proof -
  let ?n = "name p"
  have s: "suffix p \<noteq> []" using assms suffixes_empty_iff by blast
  then have pos: "0 < rfind ?n CHR ''.''" and nn: "?n \<noteq> []" "?n \<noteq> ''/''"
    by (auto simp: suffix_def Let_def split: if_splits)
  have dotin: "CHR ''.'' \<in> set ?n" using pos rfind_notin [of "CHR ''.''" ?n] by fastforce
  have t: "tl (split_sep CHR ''.'' ?n) \<noteq> []"
    using assms suffixes_nonempty [OF assms] by auto
  then have "last (tl (split_sep CHR ''.'' ?n)) = last (split_sep CHR ''.'' ?n)"
    by (simp add: last_tl)
  then have "last (suffixes p) = CHR ''.'' # drop (Suc (nat (rfind ?n CHR ''.''))) ?n"
    using suffixes_nonempty [OF assms] t dotin split_sep_last [of "CHR ''.''" ?n]
    by (simp add: last_map)
  moreover have "suffix p = drop (nat (rfind ?n CHR ''.'')) ?n"
    unfolding suffix_def Let_def using pos nn by (simp only: if_False simp_thms not_le [symmetric])
  moreover have "drop (nat (rfind ?n CHR ''.'')) ?n = CHR ''.'' # drop (Suc (nat (rfind ?n CHR ''.''))) ?n"
    using rfind_drop [of ?n "CHR ''.''"] pos by simp
  ultimately show ?thesis by simp
qed

text \<open>
  For a name that does not start with a dot the accessors agree: the last element of
  \<open>suffixes\<close> is \<open>suffix\<close>, and the concatenation of \<open>suffixes\<close> is the run of
  dot-groups that follows the non-empty first group of the name.
\<close>

lemma suffixes_of_plain_name:
  assumes "suffix p \<noteq> []" and "\<not> startswith (name p) ''.''"
  shows "stem p @ suffix p = name p
         \<and> last (suffixes p) = suffix p
         \<and> concat (suffixes p) = dropWhile (\<lambda>c. c \<noteq> CHR ''.'') (name p)
         \<and> takeWhile (\<lambda>c. c \<noteq> CHR ''.'') (name p) \<noteq> []"
proof -
  have ne: "suffixes p \<noteq> []" using assms(1) suffixes_empty_iff by blast
  have "name p \<noteq> []" using assms(1) by (auto simp: suffix_def Let_def)
  then have "takeWhile (\<lambda>c. c \<noteq> CHR ''.'') (name p) \<noteq> []"
    using assms(2) by (cases "name p") (auto simp: startswith_def)
  then show ?thesis
    using stem_suffix [of p] suffixes_last [OF ne] suffixes_concat [OF ne] by simp
qed

section \<open>Normalization reaches a fixed point\<close>

lemma comps_ok_Nil: "comps_ok init []"
  by (simp add: comps_ok_def)

lemma comps_ok_snoc:
  "comps_ok init (xs @ [c]) \<longleftrightarrow>
     comps_ok init xs \<and> c \<noteq> [] \<and> c \<noteq> ''.'' \<and> CHR ''/'' \<notin> set c
     \<and> (c = ''..'' \<longrightarrow> init = 0 \<and> (xs = [] \<or> last xs = ''..''))"
  by (cases "xs = []") (auto simp: comps_ok_def hd_rev)

lemma comps_ok_butlast: "comps_ok init xs \<Longrightarrow> comps_ok init (butlast xs)"
  by (cases xs rule: rev_cases) (auto simp: comps_ok_snoc comps_ok_Nil)

lemma comps_ok_last_dotdot:
  "comps_ok init acc \<Longrightarrow> acc \<noteq> [] \<Longrightarrow> last acc = ''..'' \<Longrightarrow> init = 0"
  by (cases acc rule: rev_cases) (auto simp: comps_ok_snoc)

lemma norm_step_ok:
  assumes "comps_ok init acc" and "CHR ''/'' \<notin> set c"
  shows "comps_ok init (norm_step init acc c)"
  using assms comps_ok_last_dotdot [of init acc] unfolding norm_step_def
  by (auto simp: comps_ok_snoc comps_ok_butlast)

lemma foldl_norm_step_ok:
  "comps_ok init acc \<Longrightarrow> (\<forall>c \<in> set cs. CHR ''/'' \<notin> set c)
     \<Longrightarrow> comps_ok init (foldl (norm_step init) acc cs)"
  by (induction cs arbitrary: acc) (auto simp: norm_step_ok)

lemma split_sep_no_sep: "p \<in> set (split_sep c s) \<Longrightarrow> c \<notin> set p"
proof (induction s arbitrary: p)
  case Nil
  then show ?case by simp
next
  case (Cons x xs)
  then show ?case by (auto split: if_splits list.splits)
qed

lemma norm_comps_ok: "comps_ok (initial_slashes s) (norm_comps s)"
  unfolding norm_comps_def
  by (rule foldl_norm_step_ok) (auto simp: comps_ok_Nil dest: split_sep_no_sep)

lemma foldl_norm_step_id:
  "comps_ok init xs \<Longrightarrow> foldl (norm_step init) [] xs = xs"
proof (induction xs rule: rev_induct)
  case Nil
  then show ?case by simp
next
  case (snoc x xs)
  then have ok: "comps_ok init xs" and x: "x \<noteq> []" "x \<noteq> ''.''"
    and dd: "x = ''..'' \<longrightarrow> init = 0 \<and> (xs = [] \<or> last xs = ''..'')"
    by (auto simp: comps_ok_snoc)
  have "foldl (norm_step init) [] (xs @ [x]) = norm_step init xs x"
    using snoc.IH [OF ok] by simp
  also have "\<dots> = xs @ [x]"
    using x dd unfolding norm_step_def by auto
  finally show ?case .
qed

lemma split_sep_single: "c \<notin> set a \<Longrightarrow> split_sep c a = [a]"
  by (induction a) auto

lemma split_sep_app: "split_sep c (a @ c # b) = split_sep c a @ split_sep c b"
proof (induction a)
  case Nil
  then show ?case by simp
next
  case (Cons x xs)
  show ?case
  proof (cases "x = c")
    case True
    then show ?thesis using Cons.IH by simp
  next
    case False
    obtain y ys where y: "split_sep c xs = y # ys"
      using split_sep_ne [of c xs] by (cases "split_sep c xs") auto
    show ?thesis using False Cons.IH y by simp
  qed
qed

lemma split_join:
  "comps \<noteq> [] \<Longrightarrow> (\<forall>p \<in> set comps. CHR ''/'' \<notin> set p)
     \<Longrightarrow> split_sep CHR ''/'' (join_sep ''/'' comps) = comps"
proof (induction "''/''" comps rule: join_sep.induct)
  case 1
  then show ?case by simp
next
  case (2 x)
  then show ?case by (simp add: split_sep_single)
next
  case (3 x y ys)
  have "split_sep CHR ''/'' (x @ CHR ''/'' # join_sep ''/'' (y # ys))
        = split_sep CHR ''/'' x @ split_sep CHR ''/'' (join_sep ''/'' (y # ys))"
    by (rule split_sep_app)
  then show ?case using 3 by (simp add: split_sep_single)
qed

lemma split_sep_replicate:
  "split_sep c (replicate n c @ s) = replicate n [] @ split_sep c s"
  by (induction n) auto

lemma foldl_norm_step_empties:
  "foldl (norm_step init) acc (replicate n [] @ xs) = foldl (norm_step init) acc xs"
  by (induction n) (auto simp: norm_step_def)

lemma startswith_slashes:
  "startswith s (replicate n CHR ''/'') \<longleftrightarrow> n \<le> length (takeWhile (\<lambda>c. c = CHR ''/'') s)"
proof (induction n arbitrary: s)
  case 0
  then show ?case by (simp add: startswith_def)
next
  case (Suc n)
  show ?case
  proof (cases s)
    case Nil
    then show ?thesis by (simp add: startswith_def)
  next
    case (Cons x xs)
    then show ?thesis using Suc [of xs] by (auto simp: startswith_def)
  qed
qed

lemma initial_slashes_alt:
  "initial_slashes s =
     (let k = length (takeWhile (\<lambda>c. c = CHR ''/'') s)
      in if k = 0 then 0 else if k = 2 then 2 else 1)"
proof -
  let ?k = "length (takeWhile (\<lambda>c. c = CHR ''/'') s)"
  have 1: "startswith s ''/'' \<longleftrightarrow> 1 \<le> ?k"
    using startswith_slashes [of s 1] by simp
  have 2: "startswith s ''//'' \<longleftrightarrow> 2 \<le> ?k"
    using startswith_slashes [of s 2] by (simp add: numeral_2_eq_2)
  have 3: "startswith s ''///'' \<longleftrightarrow> 3 \<le> ?k"
    using startswith_slashes [of s 3] by (simp add: numeral_3_eq_3)
  have 0: "?k = 0 \<longleftrightarrow> \<not> 1 \<le> ?k" by linarith
  show ?thesis
    unfolding initial_slashes_def Let_def 1 2 3 0 by simp
qed

lemma initial_slashes_le: "initial_slashes s \<le> 2"
  by (simp add: initial_slashes_alt Let_def)

lemma takeWhile_replicate_app:
  "takeWhile (\<lambda>c. c = x) (replicate n x @ t) = replicate n x @ takeWhile (\<lambda>c. c = x) t"
  by (induction n) auto

lemma initial_slashes_replicate:
  assumes "init \<le> 2" and "t = [] \<or> hd t \<noteq> CHR ''/''"
  shows "initial_slashes (replicate init CHR ''/'' @ t) = init"
proof -
  have "takeWhile (\<lambda>c. c = CHR ''/'') t = []"
    using assms(2) by (cases t) auto
  then have "takeWhile (\<lambda>c. c = CHR ''/'') (replicate init CHR ''/'' @ t)
             = replicate init CHR ''/''"
    by (simp add: takeWhile_replicate_app)
  then show ?thesis using assms(1) by (auto simp: initial_slashes_alt Let_def)
qed

lemma join_sep_Nil_iff:
  "(\<forall>c \<in> set comps. c \<noteq> []) \<Longrightarrow> join_sep sep comps = [] \<longleftrightarrow> comps = []"
  by (induction sep comps rule: join_sep.induct) auto

lemma join_sep_hd:
  "comps \<noteq> [] \<Longrightarrow> hd comps \<noteq> [] \<Longrightarrow> hd (join_sep sep comps) = hd (hd comps)"
  by (induction sep comps rule: join_sep.induct) auto

lemma join_sep_last:
  "comps \<noteq> [] \<Longrightarrow> last comps \<noteq> []
     \<Longrightarrow> join_sep sep comps \<noteq> [] \<and> last (join_sep sep comps) = last (last comps)"
  by (induction sep comps rule: join_sep.induct) auto

lemma comps_ok_set:
  "comps_ok init comps \<Longrightarrow> c \<in> set comps
     \<Longrightarrow> c \<noteq> [] \<and> c \<noteq> ''.'' \<and> CHR ''/'' \<notin> set c"
  by (induction comps rule: rev_induct) (auto simp: comps_ok_snoc)

lemma normpath_assemble:
  "s \<noteq> [] \<Longrightarrow> normpath s = assemble (initial_slashes s) (norm_comps s)"
  by (simp add: normpath_def assemble_def norm_comps_def Let_def)

lemma assemble_nonempty: "assemble init comps \<noteq> []"
  by (simp add: assemble_def Let_def)

lemma initial_slashes_assemble:
  assumes "comps_ok init comps" and "init \<le> 2"
  shows "initial_slashes (assemble init comps) = init"
proof (cases "comps = []")
  case True
  show ?thesis
  proof (cases "init = 0")
    case True
    then show ?thesis using \<open>comps = []\<close>
      by (simp add: assemble_def initial_slashes_def startswith_def)
  next
    case False
    then have "assemble init comps = replicate init CHR ''/'' @ []"
      using \<open>comps = []\<close> by (simp add: assemble_def)
    then show ?thesis using initial_slashes_replicate [OF assms(2), of "[]"] by simp
  qed
next
  case False
  have ne: "\<forall>c \<in> set comps. c \<noteq> []" using assms(1) comps_ok_set by blast
  then have j: "join_sep ''/'' comps \<noteq> []" using False join_sep_Nil_iff by blast
  have "hd comps \<in> set comps" using False by simp
  then have h: "hd comps \<noteq> [] \<and> CHR ''/'' \<notin> set (hd comps)"
    using assms(1) comps_ok_set by blast
  then have "hd (hd comps) \<in> set (hd comps)" by simp
  then have "hd (hd comps) \<noteq> CHR ''/''" using h by metis
  then have "hd (join_sep ''/'' comps) \<noteq> CHR ''/''"
    using join_sep_hd [OF False, of "''/''"] h by simp
  moreover have "assemble init comps = replicate init CHR ''/'' @ join_sep ''/'' comps"
    using j by (simp add: assemble_def)
  ultimately show ?thesis using initial_slashes_replicate [OF assms(2)] by simp
qed

lemma split_assemble:
  assumes "comps_ok init comps"
  shows "foldl (norm_step init) [] (split_sep CHR ''/'' (assemble init comps)) = comps"
proof (cases "comps = []")
  case True
  show ?thesis
  proof (cases "init = 0")
    case True
    then show ?thesis using \<open>comps = []\<close> by (simp add: assemble_def norm_step_def)
  next
    case False
    then have "assemble init comps = replicate init CHR ''/'' @ []"
      using \<open>comps = []\<close> by (simp add: assemble_def)
    then have "split_sep CHR ''/'' (assemble init comps) = replicate init [] @ [[]]"
      using split_sep_replicate [of "CHR ''/''" init "[]"] by simp
    then show ?thesis using \<open>comps = []\<close> foldl_norm_step_empties [of init "[]" init "[[]]"]
      by (simp add: norm_step_def)
  qed
next
  case False
  have ne: "\<forall>c \<in> set comps. c \<noteq> []" using assms comps_ok_set by blast
  then have j: "join_sep ''/'' comps \<noteq> []" using False join_sep_Nil_iff by blast
  have ns: "\<forall>c \<in> set comps. CHR ''/'' \<notin> set c" using assms comps_ok_set by blast
  have "assemble init comps = replicate init CHR ''/'' @ join_sep ''/'' comps"
    using j by (simp add: assemble_def)
  then have "split_sep CHR ''/'' (assemble init comps) = replicate init [] @ comps"
    using split_sep_replicate [of "CHR ''/''" init] split_join [OF False ns] by simp
  then show ?thesis
    using foldl_norm_step_empties [of init "[]" init comps] foldl_norm_step_id [OF assms] by simp
qed

lemma normpath_fixed:
  assumes "s \<noteq> []"
  shows "normpath s \<noteq> []
         \<and> initial_slashes (normpath s) = initial_slashes s
         \<and> norm_comps (normpath s) = norm_comps s"
proof -
  let ?i = "initial_slashes s" and ?c = "norm_comps s"
  have n: "normpath s = assemble ?i ?c" using assms by (rule normpath_assemble)
  have ok: "comps_ok ?i ?c" by (rule norm_comps_ok)
  have i: "initial_slashes (assemble ?i ?c) = ?i"
    using ok initial_slashes_le by (rule initial_slashes_assemble)
  have "norm_comps (assemble ?i ?c)
        = foldl (norm_step ?i) [] (split_sep CHR ''/'' (assemble ?i ?c))"
    by (subst norm_comps_def) (simp only: i)
  also have "\<dots> = ?c" using ok by (rule split_assemble)
  finally have "norm_comps (assemble ?i ?c) = ?c" .
  then show ?thesis using n i assemble_nonempty by simp
qed

lemma normpath_idem: "normpath (normpath s) = normpath s"
proof (cases "s = []")
  case True
  then show ?thesis
    by (simp add: normpath_def initial_slashes_def startswith_def norm_step_def)
next
  case False
  then show ?thesis
    using normpath_fixed [OF False] normpath_assemble [of "normpath s"] normpath_assemble [OF False]
    by simp
qed

lemma FlexPath_new_idem: "FlexPath_new (FlexPath_new s) = FlexPath_new s"
  by (simp add: FlexPath_new_def normpath_idem)

section \<open>The loop of normpath and the specification's algorithm\<close>

lemma spec_resolve_step:
  assumes "c \<noteq> []" and "c \<noteq> ''.''"
  shows "spec_resolve (init \<noteq> 0) (rev acc) (c # fs)
         = spec_resolve (init \<noteq> 0) (rev (norm_step init acc c)) fs"
proof (cases acc rule: rev_cases)
  case Nil
  then show ?thesis using assms by (simp add: norm_step_def)
next
  case (snoc ys y)
  then show ?thesis using assms by (simp add: norm_step_def)
qed

lemma foldl_norm_step_spec:
  "foldl (norm_step init) acc segs
   = spec_resolve (init \<noteq> 0) (rev acc) (filter (\<lambda>g. g \<noteq> [] \<and> g \<noteq> ''.'') segs)"
proof (induction segs arbitrary: acc)
  case Nil
  then show ?case by simp
next
  case (Cons c segs)
  show ?case
  proof (cases "c = [] \<or> c = ''.''")
    case True
    then have "norm_step init acc c = acc" by (auto simp: norm_step_def)
    then show ?thesis using True Cons.IH [of acc] by auto
  next
    case False
    then show ?thesis
      using Cons.IH [of "norm_step init acc c"] spec_resolve_step [of c init acc] by simp
  qed
qed

lemma initial_slashes_zero: "initial_slashes s \<noteq> 0 \<longleftrightarrow> take 1 s = ''/''"
  by (simp add: initial_slashes_def startswith_def)

lemma initial_slashes_two:
  "initial_slashes s = 2 \<longleftrightarrow> startswith s ''//'' \<and> \<not> startswith s ''///''"
proof -
  let ?k = "length (takeWhile (\<lambda>c. c = CHR ''/'') s)"
  have 1: "startswith s ''/'' \<longleftrightarrow> 1 \<le> ?k"
    using startswith_slashes [of s 1] by simp
  have 2: "startswith s ''//'' \<longleftrightarrow> 2 \<le> ?k"
    using startswith_slashes [of s 2] by (simp add: numeral_2_eq_2)
  have 3: "startswith s ''///'' \<longleftrightarrow> 3 \<le> ?k"
    using startswith_slashes [of s 3] by (simp add: numeral_3_eq_3)
  show ?thesis
    unfolding initial_slashes_def 1 2 3 by auto
qed

lemma norm_comps_spec:
  "norm_comps s = spec_resolve (take 1 s = ''/'') []
                    (filter (\<lambda>g. g \<noteq> [] \<and> g \<noteq> ''.'') (split_sep CHR ''/'' s))"
  unfolding norm_comps_def foldl_norm_step_spec initial_slashes_zero by simp

lemma FlexPath_new_spec:
  "FlexPath_new s =
     (if s \<noteq> [] \<and> spec_normalize s = [] then ''.''
      else if startswith s ''//'' \<and> \<not> startswith s ''///'' then CHR ''/'' # spec_normalize s
      else spec_normalize s)"
proof (cases "s = []")
  case True
  then show ?thesis by (simp add: FlexPath_new_def spec_normalize_def startswith_def)
next
  case False
  let ?j = "join_sep ''/'' (norm_comps s)"
  have n: "FlexPath_new s = assemble (initial_slashes s) (norm_comps s)"
    using False by (simp add: FlexPath_new_def normpath_assemble)
  have sp: "spec_normalize s = (if take 1 s = ''/'' then ''/'' else []) @ ?j"
    using False by (simp add: spec_normalize_def norm_comps_spec Let_def)
  consider (rel) "initial_slashes s = 0" | (one) "initial_slashes s = 1" | (two) "initial_slashes s = 2"
    using initial_slashes_le [of s] by linarith
  then show ?thesis
  proof cases
    case rel
    then have "take 1 s \<noteq> ''/''" using initial_slashes_zero [of s] by simp
    moreover have "\<not> (startswith s ''//'' \<and> \<not> startswith s ''///'')"
      using rel initial_slashes_two [of s] by simp
    ultimately show ?thesis using False n sp rel by (auto simp: assemble_def Let_def)
  next
    case one
    then have "take 1 s = ''/''" using initial_slashes_zero [of s] by simp
    moreover have "\<not> (startswith s ''//'' \<and> \<not> startswith s ''///'')"
      using one initial_slashes_two [of s] by simp
    ultimately show ?thesis using False n sp one by (auto simp: assemble_def Let_def)
  next
    case two
    then have "take 1 s = ''/''" using initial_slashes_zero [of s] by simp
    moreover have "startswith s ''//'' \<and> \<not> startswith s ''///''"
      using two initial_slashes_two [of s] by simp
    ultimately show ?thesis using False n sp two
      by (auto simp: assemble_def Let_def numeral_2_eq_2)
  qed
qed

section \<open>Names of normalized paths\<close>

lemma FlexPath_new_trailing_slash:
  assumes "FlexPath_new s \<noteq> []" and "last (FlexPath_new s) = CHR ''/''"
  shows "FlexPath_new s = ''/'' \<or> FlexPath_new s = ''//''"
proof -
  let ?i = "initial_slashes s" and ?c = "norm_comps s"
  have ne: "s \<noteq> []" using assms(1) by (auto simp: FlexPath_new_def)
  then have x: "FlexPath_new s = assemble ?i ?c"
    by (simp add: FlexPath_new_def normpath_assemble)
  have ok: "comps_ok ?i ?c" by (rule norm_comps_ok)
  show ?thesis
  proof (cases "?c = []")
    case True
    consider "?i = 0" | "?i = 1" | "?i = 2" using initial_slashes_le [of s] by linarith
    then show ?thesis
    proof cases
      case 1
      then show ?thesis using x True assms(2) by (simp add: assemble_def)
    next
      case 2
      then show ?thesis using x True by (simp add: assemble_def)
    next
      case 3
      then show ?thesis using x True by (simp add: assemble_def numeral_2_eq_2)
    qed
  next
    case False
    have l: "last ?c \<noteq> [] \<and> CHR ''/'' \<notin> set (last ?c)"
      using False ok comps_ok_set [of ?i ?c "last ?c"] by simp
    then have j: "join_sep ''/'' ?c \<noteq> [] \<and> last (join_sep ''/'' ?c) = last (last ?c)"
      using join_sep_last [OF False, of "''/''"] by simp
    then have "FlexPath_new s = replicate ?i CHR ''/'' @ join_sep ''/'' ?c"
      using x by (simp add: assemble_def)
    then have "last (FlexPath_new s) = last (last ?c)" using j by simp
    moreover have "last (last ?c) \<in> set (last ?c)" using l by simp
    ultimately show ?thesis using assms(2) l by metis
  qed
qed

lemma rstrip_sep_id: "s = [] \<or> last s \<noteq> CHR ''/'' \<Longrightarrow> rstrip_sep s = s"
  by (cases s rule: rev_cases) (auto simp: rstrip_sep_def)

lemma name_of_stripped:
  assumes "s \<noteq> []" and "last s \<noteq> CHR ''/''"
  shows "name s \<noteq> [] \<and> name s \<noteq> ''/''
         \<and> (if length (name s) \<noteq> length s then take (length s - length (name s)) s else [])
             @ name s = s"
proof -
  have r: "rstrip_sep s = s" using assms rstrip_sep_id by blast
  have ns: "s \<noteq> ''/''" using assms(2) by auto
  show ?thesis
  proof (cases "0 \<le> rfind s CHR ''/''")
    case True
    let ?k = "nat (rfind s CHR ''/'')"
    have n: "name s = drop (Suc ?k) s"
      using True r ns assms(1) by (simp add: name_def last_component_def Let_def nat_add_distrib)
    have d: "s = take ?k s @ CHR ''/'' # drop (Suc ?k) s" "CHR ''/'' \<notin> set (drop (Suc ?k) s)"
      using rfind_decomp [OF True] by auto
    have k: "?k < length s" using rfind_bounds [of s "CHR ''/''"] True by simp
    have "drop (Suc ?k) s \<noteq> []"
    proof
      assume "drop (Suc ?k) s = []"
      then have "s = take ?k s @ [CHR ''/'']" using d(1) by simp
      then have "last s = CHR ''/''" by (metis last_snoc)
      then show False using assms(2) by simp
    qed
    moreover have "drop (Suc ?k) s \<noteq> ''/''" using d(2) by auto
    moreover have "length (drop (Suc ?k) s) \<noteq> length s" using k by simp
    moreover have "length s - length (drop (Suc ?k) s) = Suc ?k" using k by simp
    ultimately show ?thesis unfolding n by simp
  next
    case False
    then have "name s = s"
      using r ns assms(1) by (simp add: name_def last_component_def Let_def)
    then show ?thesis using assms(1) ns by simp
  qed
qed

lemma suffix_shape: "suffix p = [] \<or> startswith (suffix p) ''.''"
proof (cases "suffix p = []")
  case True
  then show ?thesis by simp
next
  case False
  then have pos: "0 < rfind (name p) CHR ''.''"
    and s: "suffix p = drop (nat (rfind (name p) CHR ''.'')) (name p)"
    by (auto simp: suffix_def Let_def split: if_splits)
  then show ?thesis using rfind_drop [of "name p" "CHR ''.''"] by (simp add: startswith_def)
qed

lemma with_suffix_roundtrip:
  assumes "x = FlexPath_new s" and "x \<noteq> []" and "x \<noteq> ''/''" and "x \<noteq> ''//''"
  shows "with_suffix x (suffix x) = Inr x"
proof -
  have l: "last x \<noteq> CHR ''/''"
    using assms FlexPath_new_trailing_slash [of s] by blast
  note n = name_of_stripped [OF assms(2) l]
  have new_name: "(if rfind (name x) CHR ''.'' \<le> 0 then name x @ suffix x
                   else take (nat (rfind (name x) CHR ''.'')) (name x) @ suffix x) = name x"
    using n by (simp add: suffix_def Let_def)
  have w: "wrap x = x" using assms(1) by (simp add: wrap_def FlexPath_new_idem)
  have sh: "\<not> (suffix x \<noteq> [] \<and> \<not> startswith (suffix x) ''.'')"
    using suffix_shape [of x] by blast
  have "with_suffix x (suffix x) =
          Inr (wrap ((if length (name x) \<noteq> length x
                      then take (length x - length (name x)) x else []) @ name x))"
    unfolding with_suffix_def Let_def using sh n new_name by simp
  then show ?thesis using n w by simp
qed

section \<open>Joining\<close>

lemma join_step_relative:
  "\<not> isabs b \<Longrightarrow>
     join_step path b = (if path = [] \<or> endswith path ''/'' then path @ b else path @ ''/'' @ b)"
  by (simp add: join_step_def isabs_def)

lemma join_step_absolute: "isabs b \<Longrightarrow> join_step path b = b"
  by (simp add: join_step_def isabs_def)

lemma posix_join_relative:
  "(\<forall>f \<in> set fs. \<not> isabs f) \<Longrightarrow> posix_join a fs = concat_fragments a fs"
  unfolding posix_join_def concat_fragments_def
proof (induction fs arbitrary: a)
  case Nil
  then show ?case by simp
next
  case (Cons f fs)
  then show ?case by (simp add: join_step_relative)
qed

lemma posix_join_reset:
  "isabs b \<Longrightarrow> posix_join a (xs @ b # ys) = posix_join b ys"
  by (simp add: posix_join_def join_step_absolute)

lemma posix_join_spec: "posix_join a fs = spec_join a fs"
proof (cases "dropWhile (\<lambda>f. \<not> isabs f) (rev fs)")
  case Nil
  then have "\<forall>f \<in> set fs. \<not> isabs f"
    by (metis (mono_tags, lifting) dropWhile_eq_Nil_conv set_rev)
  then have "posix_join a fs = concat_fragments a fs" by (rule posix_join_relative)
  then show ?thesis unfolding spec_join_def Nil by simp
next
  case (Cons f before)
  let ?after = "rev (takeWhile (\<lambda>f. \<not> isabs f) (rev fs))"
  have "rev fs = takeWhile (\<lambda>f. \<not> isabs f) (rev fs) @ f # before"
    using Cons by (metis takeWhile_dropWhile_id)
  then have fs: "fs = rev before @ f # ?after"
    by (metis rev_append rev_rev_ident rev.simps(2) append_assoc append_Cons append_Nil)
  have ab: "isabs f" using Cons by (metis (mono_tags, lifting) hd_dropWhile list.sel(1) list.distinct(1))
  have rel: "\<forall>g \<in> set ?after. \<not> isabs g"
    by (auto dest: set_takeWhileD)
  have "posix_join a fs = posix_join f ?after"
    using posix_join_reset [OF ab, of a "rev before" ?after] fs by simp
  also have "\<dots> = concat_fragments f ?after"
    using rel by (rule posix_join_relative)
  finally show ?thesis unfolding spec_join_def Cons by simp
qed

lemma endswith_slash: "endswith a ''/'' \<longleftrightarrow> a \<noteq> [] \<and> last a = CHR ''/''"
proof (cases a rule: rev_cases)
  case Nil
  then show ?thesis by (simp add: endswith_def)
next
  case (snoc ys y)
  then show ?thesis by (auto simp: endswith_def)
qed

lemma takeWhile_slashes_append:
  assumes "t = [] \<or> hd t \<noteq> CHR ''/'' \<or> (\<exists>x \<in> set a. x \<noteq> CHR ''/'')"
  shows "takeWhile (\<lambda>c. c = CHR ''/'') (a @ t) = takeWhile (\<lambda>c. c = CHR ''/'') a"
proof (cases "\<exists>x \<in> set a. x \<noteq> CHR ''/''")
  case True
  then show ?thesis by (auto simp: takeWhile_append1)
next
  case False
  then have all: "\<And>x. x \<in> set a \<Longrightarrow> x = CHR ''/''" by blast
  have t: "takeWhile (\<lambda>c. c = CHR ''/'') t = []"
    using assms False by (cases t) auto
  have A: "takeWhile (\<lambda>c. c = CHR ''/'') (a @ t) = a @ takeWhile (\<lambda>c. c = CHR ''/'') t"
    using all by (simp add: takeWhile_append2)
  have B: "takeWhile (\<lambda>c. c = CHR ''/'') a = a"
    using all by (simp add: takeWhile_eq_all_conv)
  show ?thesis unfolding A B t by simp
qed

lemma initial_slashes_append:
  assumes "t = [] \<or> hd t \<noteq> CHR ''/'' \<or> (\<exists>x \<in> set a. x \<noteq> CHR ''/'')"
  shows "initial_slashes (a @ t) = initial_slashes a"
  using takeWhile_slashes_append [OF assms] by (simp add: initial_slashes_alt)

lemma join_step_comps:
  assumes "a \<noteq> []" and "\<not> isabs b"
  shows "join_step a b \<noteq> []
         \<and> initial_slashes (join_step a b) = initial_slashes a
         \<and> norm_comps (join_step a b)
             = foldl (norm_step (initial_slashes a)) (norm_comps a) (split_sep CHR ''/'' b)"
proof (cases "endswith a ''/''")
  case True
  then obtain a' where a: "a = a' @ ''/''"
    using endswith_slash [of a] by (metis append_butlast_last_id)
  have j: "join_step a b = a @ b" using True assms(2) by (simp add: join_step_relative)
  have b: "b = [] \<or> hd b \<noteq> CHR ''/''"
    using assms(2) by (cases b) (auto simp: isabs_def startswith_def)
  then have i: "initial_slashes (a @ b) = initial_slashes a"
    using initial_slashes_append [of b a] by blast
  have "split_sep CHR ''/'' (a @ b) = split_sep CHR ''/'' a' @ split_sep CHR ''/'' b"
    using split_sep_app [of "CHR ''/''" a' b] a by simp
  moreover have "split_sep CHR ''/'' a = split_sep CHR ''/'' a' @ [[]]"
    using split_sep_app [of "CHR ''/''" a' "[]"] a by simp
  ultimately have "norm_comps (a @ b)
      = foldl (norm_step (initial_slashes a)) (norm_comps a) (split_sep CHR ''/'' b)"
    unfolding norm_comps_def i by (simp add: norm_step_def)
  then show ?thesis using j i assms(1) by simp
next
  case False
  then have l: "last a \<noteq> CHR ''/''" using endswith_slash [of a] assms(1) by blast
  have j: "join_step a b = a @ CHR ''/'' # b"
    using False assms by (simp add: join_step_relative)
  have "last a \<in> set a" using assms(1) by simp
  then have "\<exists>x \<in> set a. x \<noteq> CHR ''/''" using l by blast
  then have i: "initial_slashes (a @ CHR ''/'' # b) = initial_slashes a"
    using initial_slashes_append [of "CHR ''/'' # b" a] by blast
  have "split_sep CHR ''/'' (a @ CHR ''/'' # b) = split_sep CHR ''/'' a @ split_sep CHR ''/'' b"
    by (rule split_sep_app)
  then have "norm_comps (a @ CHR ''/'' # b)
      = foldl (norm_step (initial_slashes a)) (norm_comps a) (split_sep CHR ''/'' b)"
    unfolding norm_comps_def i by simp
  then show ?thesis using j i by simp
qed

lemma normpath_join_step:
  assumes "a \<noteq> []" and "\<not> isabs b"
  shows "normpath (join_step (normpath a) b) = normpath (join_step a b)"
proof -
  note f = normpath_fixed [OF assms(1)]
  have r: "normpath a \<noteq> []" using f by simp
  note 1 = join_step_comps [OF assms]
  note 2 = join_step_comps [OF r assms(2)]
  show ?thesis
    using 1 2 f normpath_assemble [of "join_step a b"]
      normpath_assemble [of "join_step (normpath a) b"]
    by simp
qed

lemma FlexPath_new_join_step:
  "FlexPath_new (join_step (FlexPath_new a) b) = FlexPath_new (join_step a b)"
proof (cases "isabs b")
  case True
  then show ?thesis by (simp add: join_step_absolute)
next
  case False
  show ?thesis
  proof (cases "a = []")
    case True
    then show ?thesis by (simp add: FlexPath_new_def)
  next
    case ne: False
    have "join_step a b \<noteq> []" "join_step (normpath a) b \<noteq> []"
      using join_step_comps [OF ne False] normpath_fixed [OF ne]
        join_step_comps [of "normpath a" b] False by auto
    then show ?thesis
      using ne normpath_join_step [OF ne False] by (simp add: FlexPath_new_def)
  qed
qed

section \<open>Replacing the name of a path whose parent is not a root\<close>

text \<open>
  For every receiver other than the empty path and \<open>/\<close> whose parent is neither \<open>/\<close>
  nor \<open>//\<close>, and every new name without a separator other than \<open>.\<close> and \<open>..\<close>,
  \<open>with_name\<close> returns a path with that name and the receiver's parent
  (\<open>with_name_replaces\<close>, the last lemma of this section).
\<close>

lemma join_sep_snoc:
  "comps \<noteq> [] \<Longrightarrow> join_sep sep (comps @ [x]) = join_sep sep comps @ sep @ x"
  by (induction sep comps rule: join_sep.induct) auto

lemma rfind_last_sep:
  "c \<notin> set b \<Longrightarrow> rfind (a @ c # b) c = int (length a)"
  by (induction a) (auto simp: Let_def rfind_notin)

lemma normal_child:
  assumes d: "d = FlexPath_new t" "d \<noteq> []" "d \<noteq> ''.''" "d \<noteq> ''/''" "d \<noteq> ''//''"
    and nm: "CHR ''/'' \<notin> set nm" "nm \<noteq> []" "nm \<noteq> ''.''" "nm \<noteq> ''..''"
  shows "FlexPath_new (d @ CHR ''/'' # nm) = d @ CHR ''/'' # nm
         \<and> last d \<noteq> CHR ''/'' \<and> (\<exists>x \<in> set d. x \<noteq> CHR ''/'')"
proof -
  let ?i = "initial_slashes t" and ?c = "norm_comps t"
  have t: "t \<noteq> []" using d(1,2) by (auto simp: FlexPath_new_def)
  have dn: "d = normpath t" using d(1) t by (simp add: FlexPath_new_def)
  have da: "d = assemble ?i ?c" using dn normpath_assemble [OF t] by simp
  note f = normpath_fixed [OF t]
  have c: "?c \<noteq> []"
  proof
    assume e: "?c = []"
    consider "?i = 0" | "?i = 1" | "?i = 2" using initial_slashes_le [of t] by linarith
    then show False
    proof cases
      case 1
      then show ?thesis using da e d(3) by (simp add: assemble_def)
    next
      case 2
      then show ?thesis using da e d(4) by (simp add: assemble_def)
    next
      case 3
      then show ?thesis using da e d(5) by (simp add: assemble_def numeral_2_eq_2)
    qed
  qed
  have ok: "comps_ok ?i ?c" by (rule norm_comps_ok)
  have l: "last d \<noteq> CHR ''/''"
    using FlexPath_new_trailing_slash [of t] d by blast
  have j: "join_sep ''/'' ?c \<noteq> []"
    using c ok comps_ok_set [of ?i ?c] join_sep_Nil_iff [of ?c "''/''"] by blast
  have dj: "d = replicate ?i CHR ''/'' @ join_sep ''/'' ?c"
    using da j by (simp add: assemble_def)
  have "last d \<in> set d" using d(2) by simp
  then have ns: "\<exists>x \<in> set d. x \<noteq> CHR ''/''" using l by blast
  have rel: "\<not> isabs nm" using nm(1,2) by (cases nm) (auto simp: isabs_def startswith_def)
  have js: "join_step d nm = d @ CHR ''/'' # nm"
    using rel d(2) l endswith_slash [of d] by (simp add: join_step_relative)
  note k = join_step_comps [OF d(2) rel]
  have sp: "split_sep CHR ''/'' nm = [nm]" using nm(1) by (rule split_sep_single)
  have st: "norm_step ?i ?c nm = ?c @ [nm]"
    using nm by (simp add: norm_step_def)
  have "normpath (d @ CHR ''/'' # nm) = assemble ?i (?c @ [nm])"
    using k js f dn sp st normpath_assemble [of "d @ CHR ''/'' # nm"] by simp
  also have "\<dots> = replicate ?i CHR ''/'' @ join_sep ''/'' ?c @ ''/'' @ nm"
    using join_sep_snoc [OF c, of "''/''" nm] by (simp add: assemble_def)
  also have "\<dots> = d @ CHR ''/'' # nm" using dj by simp
  finally show ?thesis using l ns by (simp add: FlexPath_new_def)
qed

lemma rstrip_sep_snoc_slash: "rstrip_sep (d @ ''/'') = rstrip_sep d"
  by (simp add: rstrip_sep_def)

lemma child_name_parent:
  assumes d: "d = FlexPath_new t" "d \<noteq> []" "last d \<noteq> CHR ''/''"
    and nm: "CHR ''/'' \<notin> set nm" "nm \<noteq> []"
  shows "name (d @ CHR ''/'' # nm) = nm \<and> parent (d @ CHR ''/'' # nm) = d"
proof -
  let ?r = "d @ CHR ''/'' # nm"
  have "last nm \<in> set nm" using nm(2) by simp
  then have "last nm \<noteq> CHR ''/''" using nm(1) by metis
  then have lr: "last ?r \<noteq> CHR ''/''" using nm(2) by simp
  have rs: "rstrip_sep ?r = ?r" using lr rstrip_sep_id [of ?r] by simp
  have rf: "rfind ?r CHR ''/'' = int (length d)" using nm(1) by (rule rfind_last_sep)
  have "length ?r \<noteq> length ''/''" using d(2) by simp
  then have ne: "?r \<noteq> ''/''" by metis
  have n: "name ?r = nm"
    using rs rf ne by (simp add: name_def last_component_def Let_def nat_add_distrib)
  have ns: "\<exists>x \<in> set d. x \<noteq> CHR ''/''" using d(2,3) last_in_set by blast
  then have nr: "d @ ''/'' \<noteq> replicate (length (d @ ''/'')) CHR ''/''"
    by (metis in_set_replicate set_append UnI1)
  have hd: "take (nat (rfind ?r CHR ''/'' + 1)) ?r = d @ ''/''"
    unfolding rf by (simp add: nat_add_distrib)
  have "dirname ?r = (if d @ ''/'' \<noteq> [] \<and> d @ ''/'' \<noteq> replicate (length (d @ ''/'')) CHR ''/''
                      then rstrip_sep (d @ ''/'') else d @ ''/'')"
    unfolding dirname_def Let_def hd ..
  then have "dirname ?r = rstrip_sep (d @ ''/'')"
    using nr by (simp only: if_True simp_thms append_is_Nil_conv list.distinct)
  then have dn: "dirname ?r = d"
    using rstrip_sep_snoc_slash [of d] rstrip_sep_id [of d] d(3) by simp
  have w: "wrap d = d" using d(1) by (simp add: wrap_def FlexPath_new_idem)
  have "parent ?r = d"
    using ne rs dn w d(2) by (simp add: parent_def Let_def)
  then show ?thesis using n by simp
qed

lemma parent_is_normal: "p \<noteq> ''/'' \<Longrightarrow> \<exists>t. t \<noteq> [] \<and> parent p = FlexPath_new t"
  by (auto simp: parent_def wrap_def Let_def)

lemma with_name_replaces:
  assumes nm: "CHR ''/'' \<notin> set nm" "nm \<noteq> []" "nm \<noteq> ''.''" "nm \<noteq> ''..''"
    and p: "p \<noteq> []" "p \<noteq> ''/''" "parent p \<noteq> ''/''" "parent p \<noteq> ''//''"
  shows "\<exists>r. with_name p nm = Inr r \<and> name r = nm \<and> parent r = parent p"
proof (cases "parent p = ''.''")
  case True
  have sp: "split_sep CHR ''/'' nm = [nm]" using nm(1) by (rule split_sep_single)
  have i: "initial_slashes nm = 0"
    using nm(1,2) by (cases nm) (auto simp: initial_slashes_def startswith_def)
  have "normpath nm = nm"
    using nm sp i by (simp add: normpath_def norm_step_def Let_def)
  then have w: "wrap nm = nm" using nm(2) by (simp add: wrap_def FlexPath_new_def)
  have "with_name p nm = Inr nm"
    using nm p True w by (simp add: with_name_def Let_def)
  moreover have "name nm = nm"
    using nm rstrip_noslash [OF nm(1)] rfind_notin [OF nm(1)]
    by (auto simp: name_def last_component_def Let_def)
  moreover have "parent nm = ''.''" using nm(1) by (rule parent_nodir)
  ultimately show ?thesis using True by simp
next
  case False
  obtain t where t: "t \<noteq> []" "parent p = FlexPath_new t"
    using parent_is_normal [OF p(2)] by blast
  let ?d = "parent p"
  have dne: "?d \<noteq> []" using t by (simp add: FlexPath_new_def normpath_fixed)
  note c = normal_child [OF t(2) dne False p(3) p(4) nm]
  note n = child_name_parent [OF t(2) dne _ nm(1,2)]
  have "with_name p nm = Inr (?d @ CHR ''/'' # nm)"
    using nm p False c by (simp add: with_name_def Let_def wrap_def)
  then show ?thesis using n c by simp
qed

section \<open>Failures of relative_to\<close>

lemma common_scan_error: "common_scan s1 s2 = Inl e \<Longrightarrow> e = Index_error"
  by (induction s1 s2 rule: common_scan.induct) (auto split: if_splits sum.splits)

lemma commonpath_error:
  "commonpath paths = Inl e \<Longrightarrow> e = Commonpath_error \<or> e = Index_error"
  unfolding commonpath_def Let_def
  by (auto split: if_splits list.splits sum.splits dest: common_scan_error)

lemma relpath_error:
  "relpath cwd path start = Inl e \<Longrightarrow> e = No_path_specified \<or> e = Index_error"
  unfolding relpath_def commonprefix_def Let_def
  by (auto split: if_splits sum.splits dest: common_scan_error)

lemma relative_to_anchors:
  "relative_to cwd p other = Inl Different_anchors \<longleftrightarrow>
     isabs (normpath p)
       \<noteq> isabs (normpath (case other of [] \<Rightarrow> [] | a # fs \<Rightarrow> posix_join a fs))"
  unfolding relative_to_def Let_def
  by (auto split: if_splits sum.splits error.splits
           dest: commonpath_error relpath_error)

lemma py_min_Nil: "py_min [a, []] = ([] :: string list)"
  by (simp add: py_min_def min_def)

lemma commonpath_dot:
  assumes "\<not> isabs sp"
  shows "commonpath [sp, ''.''] = Inr []"
proof -
  have t: "take 1 sp \<noteq> ''/''" using assms by (simp add: isabs_def startswith_def)
  have r: "remdups [take 1 sp = ''/'', take 1 ''.'' = ''/''] = [False]"
    using t by simp
  have m: "py_min [filter (\<lambda>c. c \<noteq> [] \<and> c \<noteq> ''.'') (split_sep CHR ''/'' sp), []] = []"
    by (rule py_min_Nil)
  have f: "filter (\<lambda>c. c \<noteq> [] \<and> c \<noteq> ''.'') (split_sep CHR ''/'' ''.'') = []"
    by simp
  show ?thesis
    unfolding commonpath_def Let_def using r m f by simp
qed

lemma relative_to_dot_base:
  "relative_to cwd p [''.'']
   = Inl (if isabs (normpath p) then Different_anchors else Not_in_subpath)"
proof -
  have b: "normpath (posix_join ''.'' []) = ''.''"
    by (simp add: posix_join_def normpath_def initial_slashes_def startswith_def norm_step_def)
  have nb: "\<not> isabs ''.''" by (simp add: isabs_def startswith_def)
  show ?thesis
  proof (cases "isabs (normpath p)")
    case True
    then show ?thesis unfolding relative_to_def Let_def using b nb by simp
  next
    case False
    then show ?thesis
      unfolding relative_to_def Let_def using b nb commonpath_dot [OF False] by simp
  qed
qed
section \<open>Decomposition accessors\<close>

text \<open>
  C3. The concatenation of \<open>suffixes\<close> is to be the trailing run of dot-groups of the
  name after the stem, a leading dot being no suffix separator. For the name
  \<open>.bashrc.bak\<close> the stem is \<open>.bashrc\<close> and the suffix is \<open>.bak\<close>, but \<open>suffixes\<close> also
  lists the leading group: it is \<open>[".bashrc", ".bak"]\<close>, whose concatenation is the
  whole name. The guard of \<open>suffixes\<close> skips the leading dot only when the name has
  exactly one dot, where \<open>suffix\<close> and \<open>stem\<close> skip it for every name (\<open>i <= 0\<close>).
\<close>

theorem suffixes_counts_leading_dot:
  "name (FlexPath_new ''/home/user/.bashrc.bak'') = ''.bashrc.bak''
   \<and> stem (FlexPath_new ''/home/user/.bashrc.bak'') = ''.bashrc''
   \<and> suffix (FlexPath_new ''/home/user/.bashrc.bak'') = ''.bak''
   \<and> suffixes (FlexPath_new ''/home/user/.bashrc.bak'') = [''.bashrc'', ''.bak'']
   \<and> suffixes (FlexPath_new ''/home/user/.bashrc'') = []"
proof -
  have p: "FlexPath_new ''/home/user/.bashrc.bak'' = ''/home/user/.bashrc.bak''"
    by code_simp
  have q: "FlexPath_new ''/home/user/.bashrc'' = ''/home/user/.bashrc''"
    by code_simp
  have n: "name ''/home/user/.bashrc.bak'' = ''.bashrc.bak''"
    by code_simp
  have t: "stem ''/home/user/.bashrc.bak'' = ''.bashrc''"
    by code_simp
  have s: "suffix ''/home/user/.bashrc.bak'' = ''.bak''"
    by code_simp
  have u: "suffixes ''/home/user/.bashrc.bak'' = [''.bashrc'', ''.bak'']"
    by code_simp
  have v: "suffixes ''/home/user/.bashrc'' = []"
    by code_simp
  show ?thesis unfolding p q using n t s u v by blast
qed

text \<open>
  C4. For every path whose name starts with a dot and contains no other dot, the
  leading dot is no suffix separator: \<open>suffix\<close> is empty, \<open>suffixes\<close> is the empty list
  and \<open>stem\<close> is the whole name.
\<close>

theorem dotfile_has_no_suffix:
  assumes "name p = CHR ''.'' # rest" and "CHR ''.'' \<notin> set rest"
  shows "suffix p = [] \<and> suffixes p = [] \<and> stem p = name p"
  using assms by (rule dotfile)

theorem dotfile_has_no_suffix_witness:
  "name (FlexPath_new ''/home/user/.bashrc'') = CHR ''.'' # ''bashrc''
   \<and> CHR ''.'' \<notin> set ''bashrc''
   \<and> suffix (FlexPath_new ''/home/user/.bashrc'') = []
   \<and> suffixes (FlexPath_new ''/home/user/.bashrc'') = []
   \<and> stem (FlexPath_new ''/home/user/.bashrc'') = ''.bashrc''"
proof -
  have p: "FlexPath_new ''/home/user/.bashrc'' = ''/home/user/.bashrc''"
    by code_simp
  have n: "name ''/home/user/.bashrc'' = CHR ''.'' # ''bashrc''"
    by code_simp
  have d: "CHR ''.'' \<notin> set ''bashrc''"
    by simp
  show ?thesis
    using dotfile_has_no_suffix [OF n d] n d unfolding p by simp
qed

text \<open>
  C10. A trailing dot is a suffix separator: for every path whose name ends with a dot
  and has at least one character before it, \<open>suffix\<close> is \<open>"."\<close> and \<open>stem\<close> is the name
  without its trailing dot, so the suffix is not empty.
\<close>

theorem trailing_dot_is_a_suffix:
  assumes "name p = pre @ ''.''" and "pre \<noteq> []"
  shows "suffix p = ''.'' \<and> stem p = pre \<and> suffix p \<noteq> []"
  using assms by (rule trailing_dot)

theorem trailing_dot_is_a_suffix_witness:
  "name (FlexPath_new ''/tmp/archive.'') = ''archive'' @ ''.''
   \<and> ''archive'' \<noteq> []
   \<and> suffix (FlexPath_new ''/tmp/archive.'') = ''.''
   \<and> stem (FlexPath_new ''/tmp/archive.'') = ''archive''"
proof -
  have p: "FlexPath_new ''/tmp/archive.'' = ''/tmp/archive.''"
    by code_simp
  have n: "name ''/tmp/archive.'' = ''archive'' @ ''.''"
    by code_simp
  have d: "''archive'' \<noteq> []"
    by simp
  show ?thesis
    using trailing_dot_is_a_suffix [OF n d] n unfolding p by simp
qed

text \<open>
  C7. Root and empty paths decompose as fixed values: the parent of \<open>/\<close> is \<open>/\<close>, the
  name of \<open>/\<close> is \<open>/\<close>, the parts of the empty path are the empty sequence, the parts
  of \<open>/\<close> are \<open>("/",)\<close>; and the parent of every path without a separator (a relative
  path with no directory component) is the relative marker \<open>.\<close>.
\<close>

theorem root_and_empty_decomposition:
  "parent (FlexPath_new ''/'') = ''/''
   \<and> name (FlexPath_new ''/'') = ''/''
   \<and> parts (FlexPath_new []) = []
   \<and> parts (FlexPath_new ''/'') = [''/'']
   \<and> (CHR ''/'' \<notin> set p \<longrightarrow> parent p = ''.'')"
proof -
  have r: "FlexPath_new ''/'' = ''/''"
    by (simp add: FlexPath_new_def normpath_def initial_slashes_def startswith_def norm_step_def)
  have e: "FlexPath_new [] = []"
    by (simp add: FlexPath_new_def)
  show ?thesis unfolding r e using fixed parent_nodir by blast
qed

theorem root_and_empty_decomposition_witness:
  "CHR ''/'' \<notin> set (FlexPath_new ''file.txt'')
   \<and> parent (FlexPath_new ''file.txt'') = ''.''"
proof -
  have p: "FlexPath_new ''file.txt'' = ''file.txt''"
    by code_simp
  have h: "CHR ''/'' \<notin> set ''file.txt''"
    by simp
  show ?thesis
    using root_and_empty_decomposition [of "''file.txt''"] h unfolding p by blast
qed

section \<open>Construction\<close>

text \<open>
  C1, as amended. Construction normalizes its input by the specification's algorithm
  (split on \<open>/\<close>, drop empty and \<open>.\<close> segments, resolve \<open>..\<close>, reassemble with \<open>/\<close> behind
  a \<open>/\<close> prefix for an absolute input), except that a non-empty input whose reassembled
  text is empty yields \<open>.\<close>, and an input that starts with exactly two slashes keeps
  both. The empty input yields the empty text, \<open>/\<close> yields \<open>/\<close>, and
  \<open>/home//user/./docs/../files\<close> yields \<open>/home/user/files\<close>.
\<close>

theorem construction_follows_algorithm:
  "FlexPath_new s =
     (if s \<noteq> [] \<and> spec_normalize s = [] then ''.''
      else if startswith s ''//'' \<and> \<not> startswith s ''///'' then CHR ''/'' # spec_normalize s
      else spec_normalize s)
   \<and> FlexPath_new [] = []
   \<and> FlexPath_new ''/'' = ''/''
   \<and> FlexPath_new ''/home//user/./docs/../files'' = ''/home/user/files''"
proof -
  have e: "FlexPath_new [] = []"
    by (simp add: FlexPath_new_def)
  have r: "FlexPath_new ''/'' = ''/''"
    by code_simp
  have x: "FlexPath_new ''/home//user/./docs/../files'' = ''/home/user/files''"
    by code_simp
  show ?thesis using FlexPath_new_spec [of s] e r x by blast
qed

theorem construction_follows_algorithm_witness:
  "spec_normalize ''//srv/./a/../b'' = ''/srv/b''
   \<and> FlexPath_new ''//srv/./a/../b'' = ''//srv/b''
   \<and> spec_normalize ''a/..'' = []
   \<and> FlexPath_new ''a/..'' = ''.''
   \<and> spec_normalize ''a//b/../c'' = ''a/c''
   \<and> FlexPath_new ''a//b/../c'' = ''a/c''"
proof -
  have 1: "spec_normalize ''//srv/./a/../b'' = ''/srv/b''"
    by code_simp
  have 2: "spec_normalize ''a/..'' = []"
    by code_simp
  have 3: "spec_normalize ''a//b/../c'' = ''a/c''"
    by code_simp
  have a: "FlexPath_new ''//srv/./a/../b'' = ''//srv/b''"
    using construction_follows_algorithm [of "''//srv/./a/../b''"]
    unfolding 1 by (simp add: startswith_def)
  have b: "FlexPath_new ''a/..'' = ''.''"
    using construction_follows_algorithm [of "''a/..''"]
    unfolding 2 by simp
  have c: "FlexPath_new ''a//b/../c'' = ''a/c''"
    using construction_follows_algorithm [of "''a//b/../c''"]
    unfolding 3 by (simp add: startswith_def)
  show ?thesis using 1 2 3 a b c by blast
qed

text \<open>
  C1, as stated, fails: for the input \<open>.\<close> the algorithm retains no segment and
  reassembles the empty text, while construction yields \<open>.\<close>; for \<open>//a\<close> the algorithm
  gives \<open>/a\<close>, while construction keeps \<open>//a\<close>.
\<close>

theorem construction_differs_from_algorithm_counterexample:
  "FlexPath_new ''.'' = ''.'' \<and> spec_normalize ''.'' = []
   \<and> FlexPath_new ''//a'' = ''//a'' \<and> spec_normalize ''//a'' = ''/a''"
proof -
  have 1: "FlexPath_new ''.'' = ''.''"
    by code_simp
  have 2: "spec_normalize ''.'' = []"
    by code_simp
  have 3: "FlexPath_new ''//a'' = ''//a''"
    by code_simp
  have 4: "spec_normalize ''//a'' = ''/a''"
    by code_simp
  show ?thesis using 1 2 3 4 by blast
qed

text \<open>
  C8. Normalization is idempotent: constructing a path from the text of a constructed
  path gives that path again, for every input string.
\<close>

theorem construction_is_idempotent:
  "FlexPath_new (FlexPath_new x) = FlexPath_new x"
  by (rule FlexPath_new_idem)

theorem construction_is_idempotent_witness:
  "FlexPath_new ''a/../../b//c/.'' = ''../b/c''
   \<and> FlexPath_new ''../b/c'' = ''../b/c''"
proof -
  have p: "FlexPath_new ''a/../../b//c/.'' = ''../b/c''"
    by code_simp
  show ?thesis
    using construction_is_idempotent [of "''a/../../b//c/.''"] unfolding p by simp
qed

section \<open>Changing the suffix\<close>

text \<open>
  C9. \<open>with_suffix\<close> round-trips with \<open>suffix\<close>: for every path \<open>x\<close> that has a name
  (its name is neither empty nor \<open>/\<close>), \<open>x.with_suffix(x.suffix) == x\<close>.
\<close>

theorem with_suffix_round_trip:
  assumes "name (FlexPath_new s) \<noteq> []" and "name (FlexPath_new s) \<noteq> ''/''"
  shows "with_suffix (FlexPath_new s) (suffix (FlexPath_new s)) = Inr (FlexPath_new s)"
proof -
  have 1: "FlexPath_new s \<noteq> []"
    using assms(1) by (auto simp: name_def last_component_def rstrip_sep_def)
  have 2: "FlexPath_new s \<noteq> ''/''"
    using assms(2) by (auto simp: name_def last_component_def)
  have 3: "FlexPath_new s \<noteq> ''//''"
    using assms(1) by (auto simp: name_def last_component_def rstrip_sep_def)
  show ?thesis using with_suffix_roundtrip [OF refl 1 2 3] .
qed

theorem with_suffix_round_trip_witness:
  "name (FlexPath_new ''/home/user/archive.tar.gz'') = ''archive.tar.gz''
   \<and> suffix (FlexPath_new ''/home/user/archive.tar.gz'') = ''.gz''
   \<and> with_suffix (FlexPath_new ''/home/user/archive.tar.gz'') ''.gz''
       = Inr ''/home/user/archive.tar.gz''"
proof -
  have p: "FlexPath_new ''/home/user/archive.tar.gz'' = ''/home/user/archive.tar.gz''"
    by code_simp
  have n: "name ''/home/user/archive.tar.gz'' = ''archive.tar.gz''"
    by code_simp
  have s: "suffix ''/home/user/archive.tar.gz'' = ''.gz''"
    by code_simp
  have 1: "name (FlexPath_new ''/home/user/archive.tar.gz'') \<noteq> []"
    unfolding p n by simp
  have 2: "name (FlexPath_new ''/home/user/archive.tar.gz'') \<noteq> ''/''"
    unfolding p n by simp
  show ?thesis
    using with_suffix_round_trip [OF 1 2] unfolding p n s by simp
qed

section \<open>Join\<close>

text \<open>
  C5. \<open>join\<close> concatenates the base with the fragments, from the last absolute
  fragment on when there is one, and normalizes the result as construction does: a
  later absolute fragment discards the base and all earlier fragments. The infix
  operator is \<open>join\<close> with one fragment, and its mirrored form is \<open>join\<close> of the
  fragment, taken as a path, with the existing path.
\<close>

theorem join_concatenates_and_normalizes:
  "joinpath (FlexPath_new s) fs = FlexPath_new (spec_join (FlexPath_new s) fs)
   \<and> (isabs b \<longrightarrow> joinpath (FlexPath_new s) (xs @ b # ys) = FlexPath_new (spec_join b ys))
   \<and> truediv (FlexPath_new s) f = joinpath (FlexPath_new s) [f]
   \<and> rtruediv (FlexPath_new s) other = joinpath (FlexPath_new other) [FlexPath_new s]"
proof -
  have 1: "joinpath (FlexPath_new s) fs = FlexPath_new (spec_join (FlexPath_new s) fs)"
  proof (cases "fs = []")
    case True
    then show ?thesis
      by (simp add: joinpath_def spec_join_def concat_fragments_def FlexPath_new_idem)
  next
    case False
    then show ?thesis by (simp add: joinpath_def wrap_def posix_join_spec)
  qed
  have 2: "isabs b \<longrightarrow> joinpath (FlexPath_new s) (xs @ b # ys) = FlexPath_new (spec_join b ys)"
    using posix_join_reset [of b "FlexPath_new s" xs ys] posix_join_spec [of b ys]
    by (simp add: joinpath_def wrap_def)
  have 3: "truediv (FlexPath_new s) f = joinpath (FlexPath_new s) [f]"
    by (simp add: truediv_def)
  have 4: "rtruediv (FlexPath_new s) other = joinpath (FlexPath_new other) [FlexPath_new s]"
    using FlexPath_new_join_step [of other "FlexPath_new s"]
    by (simp add: rtruediv_def joinpath_def wrap_def posix_join_def)
  show ?thesis using 1 2 3 4 by blast
qed

theorem join_concatenates_and_normalizes_witness:
  "joinpath (FlexPath_new ''/home/user'') [''docs'', ''file.txt''] = ''/home/user/docs/file.txt''
   \<and> isabs ''/etc''
   \<and> joinpath (FlexPath_new ''/home/user'') ([''docs''] @ ''/etc'' # [''./conf.d/'', ''x'']) = ''/etc/conf.d/x''
   \<and> rtruediv (FlexPath_new ''docs/file.txt'') ''/home//user/'' = ''/home/user/docs/file.txt''"
proof -
  note t = join_concatenates_and_normalizes
      [of "''/home/user''" "[''docs'', ''file.txt'']" "''/etc''" "[''docs'']"
          "[''./conf.d/'', ''x'']"]
  note u = join_concatenates_and_normalizes [of "''docs/file.txt''" _ _ _ _ _ "''/home//user/''"]
  have a: "FlexPath_new (spec_join (FlexPath_new ''/home/user'') [''docs'', ''file.txt''])
           = ''/home/user/docs/file.txt''"
    by code_simp
  have b: "isabs ''/etc''"
    by code_simp
  have c: "FlexPath_new (spec_join ''/etc'' [''./conf.d/'', ''x'']) = ''/etc/conf.d/x''"
    by code_simp
  have d: "joinpath (FlexPath_new ''/home//user/'') [FlexPath_new ''docs/file.txt'']
           = ''/home/user/docs/file.txt''"
    by code_simp
  show ?thesis using t u a b c d by simp
qed

section \<open>Replacing the name\<close>

text \<open>
  C6. \<open>with_name\<close> is to return a path whose final component is the new name and whose
  parent is the receiver's parent. For a path directly under the root the source joins
  the parent \<open>/\<close>, a separator and the name, and normalization keeps the two leading
  slashes: \<open>FlexPath("/a").with_name("b")\<close> is \<open>//b\<close>, whose parent is \<open>//\<close> and not \<open>/\<close>.
\<close>

theorem with_name_under_root_changes_parent:
  "with_name (FlexPath_new ''/a'') ''b'' = Inr ''//b''
   \<and> parent ''//b'' = ''//''
   \<and> parent (FlexPath_new ''/a'') = ''/''"
proof -
  have 1: "with_name (FlexPath_new ''/a'') ''b'' = Inr ''//b''"
    by code_simp
  have 2: "parent ''//b'' = ''//''"
    by code_simp
  have 3: "parent (FlexPath_new ''/a'') = ''/''"
    by code_simp
  show ?thesis using 1 2 3 by blast
qed

section \<open>Relative paths: a path relative to itself\<close>

text \<open>
  C2. \<open>relative_to\<close> is to return the relative marker \<open>.\<close> when the receiver equals the
  base. For the path \<open>.\<close> (and for the empty path) the source compares the result of
  \<open>commonpath\<close>, which is empty, with the normalized base \<open>.\<close> and raises "not in the
  subpath", whatever the working directory is. So does every relative receiver against
  the base \<open>.\<close>, and so does \<open>//a\<close> against itself, where \<open>commonpath\<close> returns \<open>/a\<close>.
\<close>

theorem relative_to_itself_fails_for_dot:
  "relative_to cwd (FlexPath_new ''.'') [FlexPath_new ''.''] = Inl Not_in_subpath
   \<and> relative_to cwd (FlexPath_new []) [FlexPath_new []] = Inl Not_in_subpath
   \<and> relative_to cwd (FlexPath_new ''//a'') [FlexPath_new ''//a''] = Inl Not_in_subpath
   \<and> relative_to cwd p [''.'']
       = Inl (if isabs (normpath p) then Different_anchors else Not_in_subpath)"
proof -
  have 1: "relative_to cwd (FlexPath_new ''.'') [FlexPath_new ''.''] = Inl Not_in_subpath"
    by code_simp
  have 2: "relative_to cwd (FlexPath_new []) [FlexPath_new []] = Inl Not_in_subpath"
    by code_simp
  have 3: "relative_to cwd (FlexPath_new ''//a'') [FlexPath_new ''//a''] = Inl Not_in_subpath"
    by code_simp
  show ?thesis using 1 2 3 relative_to_dot_base [of cwd p] by blast
qed

end
